theory Spec2Isabelle
  imports Main
begin

section \<open>Text primitives of the host language\<close>

text \<open>
  A Python \<open>str\<close> is modelled as a \<^typ>\<open>string\<close>; a \<^typ>\<open>char\<close> stands for a code point
  below 256. The exceptions that the modelled code can raise are values of \<open>error\<close>.
\<close>

datatype error = ValueError | KeyError | AttributeError | TypeError

text \<open>\<open>s.startswith(p)\<close>\<close>

definition startswith :: "string \<Rightarrow> string \<Rightarrow> bool" where
  "startswith s p = (take (length p) s = p)"

text \<open>
  \<open>c.isspace()\<close> on the code points below 256: TAB, LF, VT, FF, CR, the four
  separators 0x1C..0x1F, SPACE, NEL (0x85) and NBSP (0xA0).
\<close>

definition isspace :: "char \<Rightarrow> bool" where
  "isspace c = (let n = (of_char c :: nat) in
     (9 \<le> n \<and> n \<le> 13) \<or> (28 \<le> n \<and> n \<le> 32) \<or> n = 133 \<or> n = 160)"

text \<open>\<open>s.strip()\<close> with no argument: whitespace is removed at both ends.\<close>

definition strip :: "string \<Rightarrow> string" where
  "strip s = rev (dropWhile isspace (rev (dropWhile isspace s)))"

text \<open>
  \<open>s.split(sep)\<close> for a non-empty separator: the text is scanned from the left and cut at
  every non-overlapping occurrence of \<open>sep\<close>. The accumulator holds the current segment
  reversed.
\<close>

function split_scan :: "string \<Rightarrow> string \<Rightarrow> string \<Rightarrow> string list" where
  "split_scan sep acc [] = [rev acc]"
| "split_scan sep acc (c # cs) =
     (if sep \<noteq> [] \<and> startswith (c # cs) sep
      then rev acc # split_scan sep [] (drop (length sep) (c # cs))
      else split_scan sep (c # acc) cs)"
  by pat_completeness auto
termination
  by (relation "measure (\<lambda>(sep, acc, s). length s)") auto

text \<open>\<open>s.split(sep)\<close>: an empty separator raises \<open>ValueError\<close>.\<close>

definition str_split :: "string \<Rightarrow> string \<Rightarrow> error + string list" where
  "str_split s sep = (if sep = [] then Inl ValueError else Inr (split_scan sep [] s))"

text \<open>\<open>sep.join(parts)\<close>\<close>

fun str_join :: "string \<Rightarrow> string list \<Rightarrow> string" where
  "str_join sep [] = []"
| "str_join sep [x] = x"
| "str_join sep (x # y # ys) = x @ sep @ str_join sep (y # ys)"

text \<open>
  Truthiness of a value that is \<open>None\<close> or a \<open>str\<close>: \<open>None\<close> and the empty string are
  falsy.
\<close>

definition truthy :: "string option \<Rightarrow> bool" where
  "truthy x = (case x of None \<Rightarrow> False | Some s \<Rightarrow> s \<noteq> [])"


section \<open>WhoisDocument\<close>

text \<open>
  \<open>WhoisDocument\<close> is a \<open>dict\<close> subclass. A dictionary keeps its keys in insertion order, so
  it is an association list whose keys are pairwise distinct. While a record is being
  read a value is a list of fragments; \<open>join_values\<close> turns it into one string.
\<close>

datatype val = Fragments "string list" | Joined string

type_synonym document = "(string \<times> val) list"

definition well_formed :: "document \<Rightarrow> bool" where
  "well_formed d = distinct (map fst d)"

text \<open>\<open>key in document\<close>\<close>

definition contains :: "document \<Rightarrow> string \<Rightarrow> bool" where
  "contains d k = (map_of d k \<noteq> None)"

text \<open>
  \<open>document[key] = v\<close>: an existing key keeps its position, a new key goes to the end.
\<close>

fun setitem :: "document \<Rightarrow> string \<Rightarrow> val \<Rightarrow> document" where
  "setitem [] k v = [(k, v)]"
| "setitem ((k', v') # d) k v =
     (if k' = k then (k, v) # d else (k', v') # setitem d k v)"

text \<open>
  \<open>document[key].append(x)\<close>: a missing key raises \<open>KeyError\<close>; a value that is already a
  string has no \<open>append\<close> and raises \<open>AttributeError\<close>.
\<close>

definition append_fragment :: "document \<Rightarrow> string \<Rightarrow> string \<Rightarrow> error + document" where
  "append_fragment d k x =
     (case map_of d k of
        None \<Rightarrow> Inl KeyError
      | Some (Joined s) \<Rightarrow> Inl AttributeError
      | Some (Fragments fs) \<Rightarrow> Inr (setitem d k (Fragments (fs @ [x]))))"

text \<open>\<open>WhoisDocument.join_values\<close>: every value that is a list is replaced by its join.\<close>

definition join_value :: "string \<Rightarrow> val \<Rightarrow> val" where
  "join_value join_with v =
     (case v of Fragments fs \<Rightarrow> Joined (str_join join_with fs) | Joined s \<Rightarrow> Joined s)"

definition join_values :: "string \<Rightarrow> document \<Rightarrow> document" where
  "join_values join_with d = map (\<lambda>(key, v). (key, join_value join_with v)) d"

text \<open>A document is finalized when every value is a single string.\<close>

fun is_joined :: "val \<Rightarrow> bool" where
  "is_joined (Joined s) = True"
| "is_joined (Fragments fs) = False"

definition finalized :: "document \<Rightarrow> bool" where
  "finalized d = list_all (\<lambda>(key, v). is_joined v) d"

text \<open>
  Equality is the one inherited from \<open>dict\<close>: the same number of keys, and every key of
  the left operand is bound to an equal value in the right operand.
\<close>

definition dict_eq :: "document \<Rightarrow> document \<Rightarrow> bool" where
  "dict_eq a b = (length a = length b \<and> list_all (\<lambda>(key, v). map_of b key = Some v) a)"

text \<open>
  \<open>WhoisDocument.__hash__\<close> is \<open>hash(frozenset(self.items()))\<close>. The hash of a frozen set
  is a function of the set, taken here as the parameter \<open>frozenset_hash\<close>; an item whose
  value is still a list is unhashable and raises \<open>TypeError\<close>.
\<close>

definition items :: "document \<Rightarrow> (string \<times> val) set" where
  "items d = set d"

definition document_hash :: "((string \<times> val) set \<Rightarrow> int) \<Rightarrow> document \<Rightarrow> error + int" where
  "document_hash frozenset_hash d =
     (if finalized d then Inr (frozenset_hash (items d)) else Inl TypeError)"


section \<open>WhoisTextParser\<close>

text \<open>
  The three settings of the constructor, with their defaults, and the parser object:
  the settings, the lines that the iterator of \<open>_file\<close> has not delivered yet
  (\<open>file_lines\<close>), and the counter of processed lines. A line keeps its terminator, as
  text-mode iteration delivers it.
\<close>

record config =
  attribute_divider :: string
  document_divider_pattern :: string
  commentary_symbol :: string

definition default_config :: config where
  "default_config =
     \<lparr>attribute_divider = '':'', document_divider_pattern = ''\<newline>'',
      commentary_symbol = ''#''\<rparr>"

record parser =
  settings :: config
  file_lines :: "string list"
  lines_processed_counter :: int

definition WhoisTextParser :: "string list \<Rightarrow> config \<Rightarrow> parser" where
  "WhoisTextParser f c = \<lparr>settings = c, file_lines = f, lines_processed_counter = 0\<rparr>"

definition is_document_divider_found :: "config \<Rightarrow> string \<Rightarrow> bool" where
  "is_document_divider_found c line = (line = document_divider_pattern c)"

text \<open>
  The three branches of \<open>_parse_line\<close>, in the order of the source: an empty line or a
  commentary, a line that starts with a space or a tab, anything else.
\<close>

definition is_empty_or_commentary :: "config \<Rightarrow> string \<Rightarrow> bool" where
  "is_empty_or_commentary c line =
     (line = ''\<newline>'' \<or> startswith line (commentary_symbol c))"

definition is_continuation :: "config \<Rightarrow> string \<Rightarrow> bool" where
  "is_continuation c line =
     (\<not> is_empty_or_commentary c line \<and>
      (startswith line '' '' \<or> startswith line [CHR 0x09]))"

definition is_key_value :: "config \<Rightarrow> string \<Rightarrow> bool" where
  "is_key_value c line =
     (\<not> is_empty_or_commentary c line \<and>
      \<not> (startswith line '' '' \<or> startswith line [CHR 0x09]))"

text \<open>\<open>key, value = parts\<close>: anything but two parts raises \<open>ValueError\<close>.\<close>

fun unpack_pair :: "string list \<Rightarrow> error + (string option \<times> string option)" where
  "unpack_pair [k, v] = Inr (Some k, Some v)"
| "unpack_pair parts = Inl ValueError"

text \<open>\<open>if x: x = x.strip()\<close>\<close>

definition strip_if_truthy :: "string option \<Rightarrow> string option" where
  "strip_if_truthy x = (if truthy x then map_option strip x else x)"

definition parse_line :: "config \<Rightarrow> string \<Rightarrow> error + (string option \<times> string option)" where
  "parse_line c line =
     (case (if line = ''\<newline>'' \<or> startswith line (commentary_symbol c)
            then Inr (None, None)
            else if startswith line '' '' \<or> startswith line [CHR 0x09]
            then Inr (None, Some line)
            else (case str_split line (attribute_divider c) of
                    Inl e \<Rightarrow> Inl e
                  | Inr parts \<Rightarrow> unpack_pair parts)) of
        Inl e \<Rightarrow> Inl e
      | Inr (key, v) \<Rightarrow> Inr (strip_if_truthy key, strip_if_truthy v))"

text \<open>
  One pass through the body of the \<open>for\<close> loop of \<open>__next__\<close>. The body either goes on
  with the next line (with the document and \<open>last_attribute_name\<close> as it leaves them),
  returns the finalized document, or raises. \<open>last_attribute_name\<close> starts as the empty
  string and is later assigned whatever \<open>attribute\<close> is, \<open>None\<close> included.
\<close>

datatype control = Continue document "string option" | Returned document | Raised error

definition record_line ::
  "document \<Rightarrow> string option \<Rightarrow> string option \<Rightarrow> string option \<Rightarrow> error + document" where
  "record_line document last_attribute_name attribute v =
     (case (attribute, v) of
        (Some a, Some x) \<Rightarrow>
          if \<not> contains document a then Inr (setitem document a (Fragments [x]))
          else append_fragment document a x
      | _ \<Rightarrow>
          if attribute = None \<and> truthy v
          then (case last_attribute_name of
                  None \<Rightarrow> Inl KeyError
                | Some l \<Rightarrow> append_fragment document l (the v))
          else Inr document)"

definition loop_body :: "config \<Rightarrow> document \<Rightarrow> string option \<Rightarrow> string \<Rightarrow> control" where
  "loop_body c document last_attribute_name line =
     (if is_document_divider_found c line
      then (if document = [] then Continue document last_attribute_name
            else Returned (join_values ''\<newline>'' document))
      else (case parse_line c line of
              Inl e \<Rightarrow> Raised e
            | Inr (attribute, v) \<Rightarrow>
                if attribute = None \<and> \<not> truthy last_attribute_name
                then Continue document last_attribute_name
                else (case record_line document last_attribute_name attribute v of
                        Inl e \<Rightarrow> Raised e
                      | Inr document' \<Rightarrow> Continue document' attribute)))"

text \<open>
  \<open>__next__\<close>: the loop over the remaining lines, then the code after the loop. The
  result is what the call does (return a document, raise \<open>StopIteration\<close>, raise an
  error), the lines left in the file and the counter.
\<close>

datatype outcome = Return document | StopIteration | Raise error

fun next_loop ::
  "config \<Rightarrow> document \<Rightarrow> string option \<Rightarrow> string list \<Rightarrow> int \<Rightarrow> outcome \<times> string list \<times> int" where
  "next_loop c document last_attribute_name [] n =
     (if document = [] then (StopIteration, [], n)
      else (Return (join_values ''\<newline>'' document), [], n))"
| "next_loop c document last_attribute_name (line # rest) n =
     (case loop_body c document last_attribute_name line of
        Continue document' last_attribute_name' \<Rightarrow>
          next_loop c document' last_attribute_name' rest (n + 1)
      | Returned d \<Rightarrow> (Return d, rest, n + 1)
      | Raised e \<Rightarrow> (Raise e, rest, n + 1))"

definition next_document :: "parser \<Rightarrow> outcome \<times> parser" where
  "next_document p =
     (case next_loop (settings p) [] (Some []) (file_lines p) (lines_processed_counter p) of
        (r, rest, n) \<Rightarrow> (r, p\<lparr>file_lines := rest, lines_processed_counter := n\<rparr>))"

text \<open>Every call that returns a document has taken at least one line from the file.\<close>

lemma next_loop_rest_le:
  "next_loop c d l ls n = (r, rest, m) \<Longrightarrow> length rest \<le> length ls"
proof (induction ls arbitrary: d l n)
  case Nil
  then show ?case by (simp split: if_splits)
next
  case (Cons x xs)
  show ?case
  proof (cases "loop_body c d l x")
    case (Continue d' l')
    with Cons.prems have "next_loop c d' l' xs (n + 1) = (r, rest, m)" by simp
    from Cons.IH [OF this] show ?thesis by simp
  next
    case (Returned d')
    with Cons.prems show ?thesis by simp
  next
    case (Raised e)
    with Cons.prems show ?thesis by simp
  qed
qed

lemma next_loop_Return_shorter:
  assumes "next_loop c [] l ls n = (Return d, rest, m)"
  shows "length rest < length ls"
proof (cases ls)
  case Nil
  with assms show ?thesis by simp
next
  case (Cons x xs)
  show ?thesis
  proof (cases "loop_body c [] l x")
    case (Continue d' l')
    with assms Cons have "next_loop c d' l' xs (n + 1) = (Return d, rest, m)" by simp
    from next_loop_rest_le [OF this] Cons show ?thesis by simp
  next
    case (Returned d')
    with assms Cons show ?thesis by simp
  next
    case (Raised e)
    with assms Cons show ?thesis by simp
  qed
qed

lemma next_document_shorter:
  assumes "next_document p = (Return d, p')"
  shows "length (file_lines p') < length (file_lines p)"
proof -
  obtain r rest n
    where nl: "next_loop (settings p) [] (Some []) (file_lines p) (lines_processed_counter p)
               = (r, rest, n)"
    using prod_cases3 by blast
  with assms have "r = Return d" and "file_lines p' = rest"
    by (auto simp: next_document_def)
  with nl show ?thesis
    by (auto dest: next_loop_Return_shorter)
qed

text \<open>
  \<open>for document in parser: yield document\<close> (the loop of \<open>parse_file\<close>): the documents
  yielded until \<open>StopIteration\<close>, or until an error leaves the loop, and the parser as it
  is then.
\<close>

function iterate :: "parser \<Rightarrow> document list \<times> error option \<times> parser" where
  "iterate p =
     (case next_document p of
        (Return d, p') \<Rightarrow> (case iterate p' of (ds, e, q) \<Rightarrow> (d # ds, e, q))
      | (StopIteration, p') \<Rightarrow> ([], None, p')
      | (Raise e, p') \<Rightarrow> ([], Some e, p'))"
  by pat_completeness auto
termination
  by (relation "measure (\<lambda>p. length (file_lines p))")
    (auto dest: next_document_shorter [OF sym])

declare iterate.simps [simp del]

definition yielded :: "parser \<Rightarrow> document list" where
  "yielded p = fst (iterate p)"

definition raised :: "parser \<Rightarrow> error option" where
  "raised p = fst (snd (iterate p))"

text \<open>What the consumer of the iteration observes: the documents and the error, if any.\<close>

definition run :: "parser \<Rightarrow> document list \<times> error option" where
  "run p = (yielded p, raised p)"

text \<open>\<open>parse_file\<close> on a file with the given lines: a parser with the default settings.\<close>

definition parse_file :: "string list \<Rightarrow> document list \<times> error option" where
  "parse_file ls = run (WhoisTextParser ls default_config)"


section \<open>Notions used to state the properties\<close>

text \<open>
  An attribute line is a line that \<open>__next__\<close> hands to the splitting branch of
  \<open>_parse_line\<close>: it is not the document divider, not empty, not a commentary and does not
  start with a space or a tab.
\<close>

definition is_attribute_line :: "config \<Rightarrow> string \<Rightarrow> bool" where
  "is_attribute_line c line = (\<not> is_document_divider_found c line \<and> is_key_value c line)"


text \<open>
  The state of a record under construction: the keys are distinct, every value is
  still a fragment list, and a truthy \<open>last_attribute_name\<close> is a key of the document.
\<close>

definition building :: "document \<Rightarrow> string option \<Rightarrow> bool" where
  "building d l =
     (well_formed d \<and> (\<forall>(k, v) \<in> set d. \<not> is_joined v) \<and>
      (truthy l \<longrightarrow> (\<exists>k. l = Some k \<and> contains d k)))"

text \<open>
  The whole iteration seen as one pass over the lines, with the document under
  construction and \<open>last_attribute_name\<close> as arguments; a returned document starts a
  fresh call of \<open>__next__\<close>. It is shown below to agree with \<open>iterate\<close>.
\<close>

fun resume :: "config \<Rightarrow> document \<Rightarrow> string option \<Rightarrow> string list \<Rightarrow> document list \<times> error option" where
  "resume c d l [] = (if d = [] then ([], None) else ([join_values ''\<newline>'' d], None))"
| "resume c d l (x # xs) =
     (case loop_body c d l x of
        Continue d' l' \<Rightarrow> resume c d' l' xs
      | Returned r \<Rightarrow> (case resume c [] (Some []) xs of (ds, e) \<Rightarrow> (r # ds, e))
      | Raised e \<Rightarrow> ([], Some e))"


section \<open>Properties of the document model\<close>

lemma join_value_idem: "join_value s' (join_value s v) = join_value s v"
  by (cases v) (simp_all add: join_value_def)

lemma finalized_join_values: "finalized (join_values s d)"
  by (induction d) (auto simp: finalized_def join_values_def join_value_def split: val.splits)

text \<open>
  C10. Finalization is idempotent: a second \<open>join_values\<close> with the same separator leaves
  the document as the first call made it, and after the first call every value is a
  single string.
\<close>

theorem join_values_idempotent:
  "join_values join_with (join_values join_with d) = join_values join_with d
   \<and> finalized (join_values join_with d)"
proof
  show "join_values join_with (join_values join_with d) = join_values join_with d"
    by (simp add: join_values_def join_value_idem case_prod_unfold)
  show "finalized (join_values join_with d)"
    by (rule finalized_join_values)
qed


section \<open>The run as a single pass over the lines: proofs\<close>

lemma resume_next_loop:
  "next_loop c d l ls n = (r, rest, m) \<Longrightarrow>
   resume c d l ls =
     (case r of
        Return x \<Rightarrow> (case resume c [] (Some []) rest of (ds, e) \<Rightarrow> (x # ds, e))
      | StopIteration \<Rightarrow> ([], None)
      | Raise e \<Rightarrow> ([], Some e))"
proof (induction ls arbitrary: d l n)
  case Nil
  then show ?case by (auto split: if_splits)
next
  case (Cons x xs)
  show ?case
  proof (cases "loop_body c d l x")
    case (Continue d' l')
    with Cons.prems have "next_loop c d' l' xs (n + 1) = (r, rest, m)" by simp
    from Cons.IH [OF this] Continue show ?thesis by simp
  next
    case (Returned y)
    with Cons.prems show ?thesis by auto
  next
    case (Raised e)
    with Cons.prems show ?thesis by auto
  qed
qed

lemma iterate_resume:
  "run p = resume (settings p) [] (Some []) (file_lines p)"
proof (induction p rule: iterate.induct)
  case (1 p)
  obtain r rest n
    where nl: "next_loop (settings p) [] (Some []) (file_lines p) (lines_processed_counter p)
               = (r, rest, n)"
    using prod_cases3 by blast
  define p' where "p' = p\<lparr>file_lines := rest, lines_processed_counter := n\<rparr>"
  have nd: "next_document p = (r, p')"
    by (simp add: next_document_def nl p'_def)
  have rs: "resume (settings p) [] (Some []) (file_lines p) =
     (case r of
        Return d \<Rightarrow> (case resume (settings p) [] (Some []) rest of (ds, e) \<Rightarrow> (d # ds, e))
      | StopIteration \<Rightarrow> ([], None)
      | Raise e \<Rightarrow> ([], Some e))"
    by (rule resume_next_loop [OF nl])
  show ?case
  proof (cases r)
    case (Return d)
    from "1.IH" [OF nd [symmetric, unfolded Return] refl]
    have ih: "(yielded p', raised p') = resume (settings p) [] (Some []) rest"
      by (simp add: p'_def run_def)
    obtain ds e q where it: "iterate p' = (ds, e, q)"
      using prod_cases3 by blast
    with ih have "resume (settings p) [] (Some []) rest = (ds, e)"
      by (simp add: yielded_def raised_def)
    moreover have "iterate p = (d # ds, e, q)"
      by (subst iterate.simps) (simp add: nd Return it)
    ultimately show ?thesis
      by (simp add: rs Return yielded_def raised_def run_def)
  next
    case StopIteration
    have "iterate p = ([], None, p')"
      by (subst iterate.simps) (simp add: nd StopIteration)
    then show ?thesis
      by (simp add: rs StopIteration yielded_def raised_def run_def)
  next
    case (Raise e)
    have "iterate p = ([], Some e, p')"
      by (subst iterate.simps) (simp add: nd Raise)
    then show ?thesis
      by (simp add: rs Raise yielded_def raised_def run_def)
  qed
qed


section \<open>Facts about single lines\<close>

lemma strip_Nil [simp]: "strip [] = []"
  by (simp add: strip_def)

lemma strip_if_truthy_None [simp]: "strip_if_truthy None = None"
  by (simp add: strip_if_truthy_def truthy_def)

lemma strip_if_truthy_Some [simp]: "strip_if_truthy (Some s) = Some (strip s)"
  by (simp add: strip_if_truthy_def truthy_def)

lemma parse_line_empty_or_commentary:
  "is_empty_or_commentary c line \<Longrightarrow> parse_line c line = Inr (None, None)"
  by (simp add: parse_line_def is_empty_or_commentary_def)

lemma parse_line_continuation:
  "is_continuation c line \<Longrightarrow> parse_line c line = Inr (None, Some (strip line))"
  by (auto simp: parse_line_def is_continuation_def is_empty_or_commentary_def)

lemma parse_line_key_value:
  "is_key_value c line \<Longrightarrow>
   parse_line c line =
     (case str_split line (attribute_divider c) of
        Inl e \<Rightarrow> Inl e
      | Inr parts \<Rightarrow>
          (case parts of
             [k, v] \<Rightarrow> Inr (Some (strip k), Some (strip v))
           | _ \<Rightarrow> Inl ValueError))"
  by (auto simp: parse_line_def is_key_value_def is_empty_or_commentary_def
      split: sum.splits list.splits)

lemma line_classes:
  "is_empty_or_commentary c line \<or> is_continuation c line \<or> is_key_value c line"
  by (auto simp: is_continuation_def is_key_value_def)

lemma parse_line_not_key_value:
  "\<not> is_key_value c line \<Longrightarrow> \<exists>v. parse_line c line = Inr (None, v)"
  using line_classes [of c line]
  by (auto simp: parse_line_empty_or_commentary parse_line_continuation)

lemma parse_line_attribute_key_value:
  "parse_line c line = Inr (Some a, v) \<Longrightarrow> is_key_value c line"
  using parse_line_not_key_value [of c line] by auto

lemma loop_body_divider:
  "loop_body c d l (document_divider_pattern c) =
     (if d = [] then Continue d l else Returned (join_values ''\<newline>'' d))"
  by (simp add: loop_body_def is_document_divider_found_def)

lemma loop_body_skip:
  assumes "\<not> is_key_value c line" and "\<not> truthy l"
  shows "loop_body c [] l line = Continue [] l"
proof (cases "is_document_divider_found c line")
  case True
  then show ?thesis by (simp add: loop_body_def)
next
  case False
  from parse_line_not_key_value [OF assms(1)] obtain v
    where "parse_line c line = Inr (None, v)" by blast
  with False assms(2) show ?thesis by (simp add: loop_body_def)
qed

lemma loop_body_Returned:
  "loop_body c d l line = Returned r \<Longrightarrow> d \<noteq> [] \<and> r = join_values ''\<newline>'' d"
  by (auto simp: loop_body_def split: if_splits sum.splits prod.splits)


section \<open>Invariant of the record under construction\<close>

lemma building_initial: "building [] (Some [])"
  by (simp add: building_def well_formed_def truthy_def)

lemma map_fst_setitem:
  "map fst (setitem d k v) = (if k \<in> set (map fst d) then map fst d else map fst d @ [k])"
  by (induction d) force+

lemma keys_setitem: "fst ` set (setitem d k v) = insert k (fst ` set d)"
proof -
  have "set (map fst (setitem d k v)) = insert k (set (map fst d))"
    by (auto simp: map_fst_setitem)
  then show ?thesis by simp
qed

lemma set_setitem: "set (setitem d k v) \<subseteq> insert (k, v) (set d)"
  by (induction d) (auto split: if_splits)

lemma distinct_setitem: "distinct (map fst d) \<Longrightarrow> distinct (map fst (setitem d k v))"
  by (simp add: map_fst_setitem)

lemma setitem_not_Nil [simp]: "setitem d k v \<noteq> []"
  by (cases d) (auto split: if_splits)

lemma contains_keys: "contains d k \<longleftrightarrow> k \<in> fst ` set d"
  by (simp add: contains_def map_of_eq_None_iff)

lemma append_fragment_cases:
  "append_fragment d k x = Inr d' \<Longrightarrow>
   \<exists>fs. map_of d k = Some (Fragments fs) \<and> d' = setitem d k (Fragments (fs @ [x]))"
  by (auto simp: append_fragment_def split: option.splits val.splits)

lemma append_fragment_building:
  assumes "\<forall>(k, v) \<in> set d. \<not> is_joined v" and "contains d k"
  shows "\<exists>fs. append_fragment d k x = Inr (setitem d k (Fragments (fs @ [x])))"
proof -
  from assms(2) obtain v where v: "map_of d k = Some v"
    by (auto simp: contains_def)
  then have "(k, v) \<in> set d" by (rule map_of_SomeD)
  with assms(1) have "\<not> is_joined v" by auto
  then obtain fs where "v = Fragments fs" by (cases v) auto
  with v show ?thesis by (auto simp: append_fragment_def)
qed

lemma record_line_cases:
  assumes "record_line d l a v = Inr d'"
  shows "d' = d \<or> (\<exists>k fs. d' = setitem d k (Fragments fs) \<and> (a = Some k \<or> (a = None \<and> l = Some k)))"
  using assms
  by (auto simp: record_line_def split: option.splits if_splits dest!: append_fragment_cases)

lemma record_line_attribute:
  assumes "record_line d l (Some a) (Some x) = Inr d'"
  shows "contains d' a"
  using assms
  by (auto simp: record_line_def contains_keys keys_setitem split: if_splits
      dest!: append_fragment_cases)

lemma record_line_errors:
  assumes "record_line d l a v = Inl e" and "building d l" and "a = None \<longrightarrow> truthy l"
  shows False
proof (cases "\<exists>k x. a = Some k \<and> v = Some x")
  case True
  then obtain k x where kx: "a = Some k" "v = Some x" by blast
  show False
  proof (cases "contains d k")
    case True
    from append_fragment_building [OF _ True, of x] assms(2)
    obtain fs where "append_fragment d k x = Inr (setitem d k (Fragments (fs @ [x])))"
      by (auto simp: building_def)
    with assms(1) kx True show False by (simp add: record_line_def)
  next
    case False
    with assms(1) kx show False by (simp add: record_line_def)
  qed
next
  case False
  show False
  proof (cases "a = None \<and> truthy v")
    case True
    with assms(3) have "truthy l" by simp
    with assms(2) obtain k where k: "l = Some k" "contains d k"
      by (auto simp: building_def)
    from append_fragment_building [OF _ k(2), of "the v"] assms(2)
    obtain fs where "append_fragment d k (the v) = Inr (setitem d k (Fragments (fs @ [the v])))"
      by (auto simp: building_def)
    with assms(1) True k False show False
      by (auto simp: record_line_def split: option.splits)
  next
    case nt: False
    with assms(1) False show False
      by (auto simp: record_line_def split: option.splits)
  qed
qed

lemma record_line_building:
  assumes "record_line d l a v = Inr d'" and "building d l"
  shows "well_formed d' \<and> (\<forall>(k, v) \<in> set d'. \<not> is_joined v)"
proof -
  from record_line_cases [OF assms(1)]
  consider "d' = d" | k fs where "d' = setitem d k (Fragments fs)" by blast
  then show ?thesis
  proof cases
    case 1
    with assms(2) show ?thesis by (simp add: building_def)
  next
    case 2
    have "set d' \<subseteq> insert (k, Fragments fs) (set d)"
      unfolding 2 by (rule set_setitem)
    moreover from assms(2) have "\<forall>(k, v) \<in> set d. \<not> is_joined v"
      by (simp add: building_def)
    ultimately have "\<forall>(k, v) \<in> set d'. \<not> is_joined v" by auto
    moreover from assms(2) have "well_formed d'"
      by (simp add: 2 building_def well_formed_def distinct_setitem)
    ultimately show ?thesis by simp
  qed
qed

lemma loop_body_Continue_cases:
  assumes "loop_body c d l line = Continue d' l'"
  shows "(d' = d \<and> l' = l \<and> (is_document_divider_found c line \<and> d = [] \<or>
            \<not> is_document_divider_found c line \<and> \<not> truthy l \<and>
            (\<exists>v. parse_line c line = Inr (None, v)))) \<or>
         (\<not> is_document_divider_found c line \<and>
          (\<exists>v. parse_line c line = Inr (l', v) \<and> (l' = None \<longrightarrow> truthy l) \<and>
               record_line d l l' v = Inr d'))"
  using assms
  by (auto simp: loop_body_def split: if_splits sum.splits prod.splits)

lemma parse_line_Some_value:
  "parse_line c line = Inr (Some a, v) \<Longrightarrow> \<exists>x. v = Some x"
  by (auto simp: parse_line_def split: if_splits sum.splits list.splits
      elim!: unpack_pair.elims)

lemma loop_body_building:
  assumes "loop_body c d l line = Continue d' l'" and "building d l"
  shows "building d' l'"
proof -
  from loop_body_Continue_cases [OF assms(1)]
  consider "d' = d" "l' = l"
    | v where "parse_line c line = Inr (l', v)" "record_line d l l' v = Inr d'"
    by blast
  then show ?thesis
  proof cases
    case 1
    with assms(2) show ?thesis by simp
  next
    case 2
    from record_line_building [OF 2(2) assms(2)]
    have wf: "well_formed d' \<and> (\<forall>(k, v) \<in> set d'. \<not> is_joined v)" .
    show ?thesis
    proof (cases l')
      case None
      with wf show ?thesis by (simp add: building_def truthy_def)
    next
      case (Some a)
      with 2(1) obtain x where "v = Some x"
        by (auto dest: parse_line_Some_value)
      with 2(2) Some have "contains d' a"
        by (auto dest: record_line_attribute)
      with wf Some show ?thesis by (simp add: building_def)
    qed
  qed
qed

lemma loop_body_Raised:
  assumes "loop_body c d l line = Raised e" and "building d l"
  shows "e = ValueError \<and> is_key_value c line \<and> \<not> is_document_divider_found c line"
proof -
  from assms(1) have nd: "\<not> is_document_divider_found c line"
    by (auto simp: loop_body_def split: if_splits)
  show ?thesis
  proof (cases "parse_line c line")
    case (Inl e')
    with assms(1) nd have "e = e'" by (simp add: loop_body_def)
    moreover from Inl have "is_key_value c line"
      using parse_line_not_key_value [of c line] by auto
    moreover from Inl have "e' = ValueError"
      by (auto simp: parse_line_def str_split_def split: if_splits sum.splits
          elim!: unpack_pair.elims)
    ultimately show ?thesis using nd by simp
  next
    case (Inr av)
    obtain a v where av: "av = (a, v)" by (cases av)
    with assms(1) nd Inr have "record_line d l a v = Inl e" and "a = None \<longrightarrow> truthy l"
      by (auto simp: loop_body_def split: if_splits sum.splits)
    from record_line_errors [OF this(1) assms(2) this(2)] show ?thesis ..
  qed
qed


section \<open>Facts about whole runs\<close>

lemma building_empty_falsy: "building [] l \<Longrightarrow> \<not> truthy l"
  by (auto simp: building_def contains_def)

lemma loop_body_no_attribute:
  assumes "\<not> is_attribute_line c line" and "\<not> truthy l"
  shows "loop_body c [] l line = Continue [] l"
proof (cases "is_document_divider_found c line")
  case True
  then show ?thesis by (simp add: loop_body_def)
next
  case False
  with assms(1) have "\<not> is_key_value c line" by (simp add: is_attribute_line_def)
  from loop_body_skip [OF this assms(2)] show ?thesis .
qed

lemma resume_divider_empty:
  "resume c [] l (document_divider_pattern c # ls) = resume c [] l ls"
  by (simp add: loop_body_divider)

lemma resume_leading_dividers:
  "resume c [] l (replicate n (document_divider_pattern c) @ ls) = resume c [] l ls"
  by (induction n) (simp_all add: loop_body_divider)

lemma resume_divider:
  "resume c d l (document_divider_pattern c # ls) =
     (if d = [] then resume c [] l ls
      else (case resume c [] (Some []) ls of (ds, e) \<Rightarrow> (join_values ''\<newline>'' d # ds, e)))"
  by (simp add: loop_body_divider)

lemma resume_divider_run:
  "resume c d l (document_divider_pattern c # replicate n (document_divider_pattern c) @ ls) =
   resume c d l (document_divider_pattern c # ls)"
  by (simp add: loop_body_divider resume_leading_dividers)

lemma resume_inner_dividers:
  "resume c d l (xs @ document_divider_pattern c # replicate n (document_divider_pattern c) @ ys) =
   resume c d l (xs @ document_divider_pattern c # ys)"
proof (induction xs arbitrary: d l)
  case Nil
  show ?case using resume_divider_run [of c d l n ys] by simp
next
  case (Cons x xs)
  show ?case
    by (cases "loop_body c d l x") (simp_all add: Cons.IH)
qed


lemma join_values_Nil_iff [simp]: "join_values s d = [] \<longleftrightarrow> d = []"
  by (simp add: join_values_def)

lemma resume_not_empty:
  "r \<in> set (fst (resume c d l ls)) \<Longrightarrow> r \<noteq> []"
proof (induction ls arbitrary: d l)
  case Nil
  then show ?case by (auto split: if_splits)
next
  case (Cons x xs)
  show ?case
  proof (cases "loop_body c d l x")
    case (Continue d' l')
    with Cons show ?thesis by simp
  next
    case (Returned y)
    from loop_body_Returned [OF this] have y: "y \<noteq> []" by simp
    obtain ds e where ds: "resume c [] (Some []) xs = (ds, e)" by (cases "resume c [] (Some []) xs")
    with Cons.prems Returned have "r = y \<or> r \<in> set ds" by simp
    moreover have "r \<in> set ds \<Longrightarrow> r \<noteq> []"
      using Cons.IH [of "[]" "Some []"] ds by simp
    ultimately show ?thesis using y by blast
  next
    case (Raised e)
    with Cons.prems show ?thesis by simp
  qed
qed


lemma resume_skip_at_start:
  assumes "\<not> is_attribute_line c x" and "\<not> truthy l"
  shows "resume c [] l (x # ls) = resume c [] l ls"
  using assms by (simp add: loop_body_no_attribute)

lemma resume_skip_after_divider:
  assumes "\<not> is_attribute_line c x" and "building d l"
  shows "resume c d l (pre @ document_divider_pattern c # x # rest) =
         resume c d l (pre @ document_divider_pattern c # rest)"
  using assms(2)
proof (induction pre arbitrary: d l)
  case Nil
  show ?case
  proof (cases "d = []")
    case True
    with Nil have "\<not> truthy l" by (auto dest: building_empty_falsy)
    with True assms(1) show ?thesis
      by (simp add: loop_body_divider loop_body_no_attribute)
  next
    case False
    have "\<not> truthy (Some [])" by (simp add: truthy_def)
    with False assms(1) show ?thesis
      by (simp add: loop_body_divider loop_body_no_attribute)
  qed
next
  case (Cons y ys)
  show ?case
  proof (cases "loop_body c d l y")
    case (Continue d' l')
    from loop_body_building [OF this Cons.prems] have "building d' l'" .
    from Cons.IH [OF this] Continue show ?thesis by simp
  next
    case (Returned r)
    with Cons.IH [OF building_initial] show ?thesis by simp
  next
    case (Raised e)
    then show ?thesis by simp
  qed
qed

lemma resume_raises_only_ValueError:
  assumes "building d l" and "snd (resume c d l ls) = Some e"
  shows "e = ValueError"
  using assms
proof (induction ls arbitrary: d l)
  case Nil
  then show ?case by (simp split: if_splits)
next
  case (Cons x xs)
  show ?case
  proof (cases "loop_body c d l x")
    case (Continue d' l')
    from loop_body_building [OF this Cons.prems(1)] have "building d' l'" .
    from Cons.IH [OF this] Cons.prems(2) Continue show ?thesis by simp
  next
    case (Returned r)
    with Cons.prems(2) have "snd (resume c [] (Some []) xs) = Some e"
      by (simp split: prod.splits)
    from Cons.IH [OF building_initial this] show ?thesis .
  next
    case (Raised e')
    from loop_body_Raised [OF this Cons.prems(1)] Raised Cons.prems(2)
    show ?thesis by simp
  qed
qed

lemma run_lines:
  "run (WhoisTextParser ls c) = resume c [] (Some []) ls"
  by (simp add: iterate_resume WhoisTextParser_def)

lemma yielded_lines: "yielded (WhoisTextParser ls c) = fst (resume c [] (Some []) ls)"
  using run_lines [of ls c] by (cases "resume c [] (Some []) ls") (simp add: run_def)

lemma raised_lines: "raised (WhoisTextParser ls c) = snd (resume c [] (Some []) ls)"
  using run_lines [of ls c] by (cases "resume c [] (Some []) ls") (simp add: run_def)

lemma falsy_initial: "\<not> truthy (Some [])"
  by (simp add: truthy_def)

lemma contains_join_values [simp]: "contains (join_values s d) k = contains d k"
  by (simp add: contains_keys join_values_def image_image case_prod_unfold)





text \<open>
  C7. No yielded document is empty, and a run of document dividers counts as one: extra
  dividers at the start of the file or right after a divider do not change what the
  iteration yields or raises.
\<close>

theorem no_empty_document:
  "(\<forall>d \<in> set (yielded (WhoisTextParser ls c)). d \<noteq> [])
   \<and> run (WhoisTextParser (replicate n (document_divider_pattern c) @ ls) c) =
      run (WhoisTextParser ls c)
   \<and> run (WhoisTextParser
        (xs @ document_divider_pattern c # replicate n (document_divider_pattern c) @ ys) c) =
      run (WhoisTextParser (xs @ document_divider_pattern c # ys) c)"
proof (intro conjI ballI)
  fix d
  assume "d \<in> set (yielded (WhoisTextParser ls c))"
  then show "d \<noteq> []"
    by (auto simp: yielded_lines dest: resume_not_empty)
next
  show "run (WhoisTextParser (replicate n (document_divider_pattern c) @ ls) c) =
      run (WhoisTextParser ls c)"
    by (simp only: run_lines resume_leading_dividers)
next
  show "run (WhoisTextParser
        (xs @ document_divider_pattern c # replicate n (document_divider_pattern c) @ ys) c) =
      run (WhoisTextParser (xs @ document_divider_pattern c # ys) c)"
    by (simp only: run_lines resume_inner_dividers)
qed

theorem no_empty_document_witness:
  "[(''a'', Joined ''1'')] \<in> set (yielded (WhoisTextParser [''a: 1\<newline>'', ''\<newline>''] default_config))
   \<and> [(''a'', Joined ''1'')] \<noteq> ([] :: document)
   \<and> run (WhoisTextParser [''\<newline>'', ''\<newline>'', ''a: 1\<newline>'', ''\<newline>''] default_config) =
     run (WhoisTextParser [''a: 1\<newline>'', ''\<newline>''] default_config)"
proof -
  have m: "[(''a'', Joined ''1'')] \<in> set (yielded (WhoisTextParser [''a: 1\<newline>'', ''\<newline>''] default_config))"
    by code_simp
  have dv: "document_divider_pattern default_config = ''\<newline>''"
    by (simp add: default_config_def)
  from no_empty_document [where ls = "[''a: 1\<newline>'', ''\<newline>'']" and c = default_config
      and n = 2] m dv
  show ?thesis by (simp add: numeral_2_eq_2)
qed

lemma continuation_not_attribute_line: "is_continuation c x \<Longrightarrow> \<not> is_attribute_line c x"
  by (auto simp: is_continuation_def is_attribute_line_def is_key_value_def)

text \<open>
  C4 (as the code has it). A line that starts with a space or a tab and comes before any
  attribute of the current record, at the start of the file or after a document
  divider, is skipped: the iteration yields and raises what it does without the line.
  No run raises \<open>KeyError\<close>.
\<close>

theorem continuation_before_attribute_skipped:
  assumes "is_continuation c x"
  shows "next_loop c [] (Some []) (x # rest) n = next_loop c [] (Some []) rest (n + 1)
   \<and> run (WhoisTextParser (x # rest) c) = run (WhoisTextParser rest c)
   \<and> run (WhoisTextParser (pre @ document_divider_pattern c # x # rest) c) =
      run (WhoisTextParser (pre @ document_divider_pattern c # rest) c)
   \<and> raised (WhoisTextParser ls c) \<noteq> Some KeyError"
proof (intro conjI)
  from assms have na: "\<not> is_attribute_line c x"
    by (rule continuation_not_attribute_line)
  from loop_body_no_attribute [OF na falsy_initial]
  show "next_loop c [] (Some []) (x # rest) n = next_loop c [] (Some []) rest (n + 1)"
    by simp
  from resume_skip_at_start [OF na falsy_initial]
  show "run (WhoisTextParser (x # rest) c) = run (WhoisTextParser rest c)"
    by (simp only: run_lines)
  from resume_skip_after_divider [OF na building_initial]
  show "run (WhoisTextParser (pre @ document_divider_pattern c # x # rest) c) =
      run (WhoisTextParser (pre @ document_divider_pattern c # rest) c)"
    by (simp only: run_lines)
  show "raised (WhoisTextParser ls c) \<noteq> Some KeyError"
    using resume_raises_only_ValueError [OF building_initial, of c ls KeyError]
    by (auto simp: raised_lines)
qed

theorem continuation_before_attribute_skipped_witness:
  "is_continuation default_config '' x\<newline>''
   \<and> run (WhoisTextParser ['' x\<newline>'', ''a: 1\<newline>''] default_config) =
     run (WhoisTextParser [''a: 1\<newline>''] default_config)"
proof -
  have h: "is_continuation default_config '' x\<newline>''" by code_simp
  from continuation_before_attribute_skipped [OF h, where rest = "[''a: 1\<newline>'']"] h
  show ?thesis by simp
qed

theorem continuation_before_attribute_counterexample:
  "is_continuation default_config '' x\<newline>''
   \<and> parse_file ['' x\<newline>'', ''a: 1\<newline>''] = ([[(''a'', Joined ''1'')]], None)"
  by code_simp

lemma resume_malformed_line:
  assumes "\<And>d l. loop_body c d l x = Raised ValueError"
  shows "building d l \<Longrightarrow> x \<in> set ls \<Longrightarrow> snd (resume c d l ls) = Some ValueError"
proof (induction ls arbitrary: d l)
  case Nil
  then show ?case by simp
next
  case (Cons y ys)
  show ?case
  proof (cases "loop_body c d l y")
    case (Continue d' l')
    with assms [of d l] have "y \<noteq> x" by auto
    with Cons.prems have "x \<in> set ys" by simp
    from Cons.IH [OF loop_body_building [OF Continue Cons.prems(1)] this] Continue
    show ?thesis by simp
  next
    case (Returned r)
    with assms [of d l] have "y \<noteq> x" by auto
    with Cons.prems have "x \<in> set ys" by simp
    from Cons.IH [OF building_initial this] Returned
    show ?thesis by (auto split: prod.splits)
  next
    case (Raised e)
    from loop_body_Raised [OF this Cons.prems(1)] Raised show ?thesis by simp
  qed
qed

text \<open>
  C9. An attribute line that does not split into exactly two parts on the attribute
  divider makes \<open>_parse_line\<close> raise \<open>ValueError\<close>; \<open>__next__\<close> lets it through, whatever
  the record under construction is, and an iteration over a file that holds such a
  line ends with this error.
\<close>

theorem malformed_attribute_line_raises:
  assumes "is_attribute_line c x"
    and "\<forall>k v. str_split x (attribute_divider c) \<noteq> Inr [k, v]"
  shows "parse_line c x = Inl ValueError
   \<and> next_loop c d l (x # rest) n = (Raise ValueError, rest, n + 1)
   \<and> (x \<in> set ls \<longrightarrow> raised (WhoisTextParser ls c) = Some ValueError)"
proof -
  from assms(1) have nd: "\<not> is_document_divider_found c x" and kv: "is_key_value c x"
    by (simp_all add: is_attribute_line_def)
  have pl: "parse_line c x = Inl ValueError"
  proof (cases "str_split x (attribute_divider c)")
    case (Inl e)
    then have "e = ValueError" by (auto simp: str_split_def split: if_splits)
    with Inl show ?thesis by (simp add: parse_line_key_value [OF kv])
  next
    case (Inr parts)
    with assms(2) have "\<forall>k v. parts \<noteq> [k, v]" by simp
    then have "(case parts of [k, v] \<Rightarrow> Inr (Some (strip k), Some (strip v))
                | _ \<Rightarrow> Inl ValueError) = (Inl ValueError :: error + (string option \<times> string option))"
      by (auto split: list.splits)
    with Inr show ?thesis by (simp add: parse_line_key_value [OF kv])
  qed
  have lb: "loop_body c d' l' x = Raised ValueError" for d' l'
    using nd pl by (simp add: loop_body_def)
  have "next_loop c d l (x # rest) n = (Raise ValueError, rest, n + 1)"
    by (simp add: lb)
  moreover have "x \<in> set ls \<longrightarrow> raised (WhoisTextParser ls c) = Some ValueError"
    using resume_malformed_line [OF lb building_initial, of ls]
    by (simp add: raised_lines)
  ultimately show ?thesis using pl by simp
qed

theorem malformed_attribute_line_raises_witness:
  "is_attribute_line default_config ''foo\<newline>''
   \<and> str_split ''foo\<newline>'' (attribute_divider default_config) = Inr [''foo\<newline>'']
   \<and> parse_line default_config ''foo\<newline>'' = Inl ValueError
   \<and> raised (WhoisTextParser [''a: 1\<newline>'', ''foo\<newline>'', ''b: 2\<newline>''] default_config)
     = Some ValueError"
proof -
  have h1: "is_attribute_line default_config ''foo\<newline>''" by code_simp
  have h2: "str_split ''foo\<newline>'' (attribute_divider default_config) = Inr [''foo\<newline>'']"
    by code_simp
  then have h3: "\<forall>k v. str_split ''foo\<newline>'' (attribute_divider default_config) \<noteq> Inr [k, v]"
    by simp
  from malformed_attribute_line_raises [OF h1 h3,
      where ls = "[''a: 1\<newline>'', ''foo\<newline>'', ''b: 2\<newline>'']"] h1 h2
  show ?thesis by simp
qed

section \<open>Stripped strings\<close>

lemma dropWhile_take_dropWhile:
  "dropWhile P (take m (dropWhile P s)) = take m (dropWhile P s)"
proof (cases "dropWhile P s")
  case Nil
  show ?thesis unfolding Nil by simp
next
  case (Cons a r)
  with hd_dropWhile [of P s] have "\<not> P a" by simp
  then show ?thesis unfolding Cons by (cases m) simp_all
qed

lemma rev_dropWhile_rev:
  "rev (dropWhile P (rev t)) = take (length t - length (takeWhile P (rev t))) t"
  by (simp only: dropWhile_eq_drop [of P "rev t"] rev_drop length_rev rev_rev_ident)

lemma strip_take: "strip s = take (length (dropWhile isspace s) -
    length (takeWhile isspace (rev (dropWhile isspace s)))) (dropWhile isspace s)"
  unfolding strip_def by (rule rev_dropWhile_rev)

lemma dropWhile_strip: "dropWhile isspace (strip s) = strip s"
  by (subst (1 2) strip_take) (rule dropWhile_take_dropWhile)

lemma strip_idem: "strip (strip s) = strip s"
proof -
  have "strip (strip s) = rev (dropWhile isspace (rev (strip s)))"
    by (simp add: strip_def [of "strip s"] dropWhile_strip)
  also have "\<dots> = strip s"
    by (simp add: strip_def)
  finally show ?thesis .
qed

lemma strip_ends:
  assumes "strip s \<noteq> []"
  shows "\<not> isspace (hd (strip s)) \<and> \<not> isspace (last (strip s))"
proof
  from assms have "dropWhile isspace (strip s) \<noteq> []" by (simp add: dropWhile_strip)
  from hd_dropWhile [OF this] show "\<not> isspace (hd (strip s))" by (simp add: dropWhile_strip)
next
  let ?t = "dropWhile isspace (rev (dropWhile isspace s))"
  from assms have "?t \<noteq> []" by (simp add: strip_def)
  from hd_dropWhile [OF this] have "\<not> isspace (hd ?t)" .
  then show "\<not> isspace (last (strip s))" by (simp add: strip_def last_rev)
qed

lemma parse_line_attribute_stripped:
  assumes "parse_line c x = Inr (Some a, v)"
  shows "strip a = a"
proof -
  from assms have "is_key_value c x" by (rule parse_line_attribute_key_value)
  from parse_line_key_value [OF this] assms obtain k where "a = strip k"
    by (auto split: sum.splits list.splits)
  then show ?thesis by (simp add: strip_idem)
qed

lemma record_line_keys:
  assumes "record_line d l a v = Inr d'" and "k \<in> fst ` set d'"
  shows "k \<in> fst ` set d \<or> a = Some k"
proof -
  have af: "append_fragment d k' y = Inr d' \<Longrightarrow> fst ` set d' = fst ` set d" for k' y
  proof -
    assume "append_fragment d k' y = Inr d'"
    from append_fragment_cases [OF this] obtain fs
      where m: "map_of d k' = Some (Fragments fs)" and d': "d' = setitem d k' (Fragments (fs @ [y]))"
      by blast
    from m have "k' \<in> fst ` set d" by (auto dest: map_of_SomeD intro: rev_image_eqI)
    with d' show ?thesis by (auto simp: keys_setitem)
  qed
  show ?thesis
  proof (cases a)
    case None
    show ?thesis
    proof (cases "truthy v")
      case True
      with assms(1) None obtain k' where "append_fragment d k' (the v) = Inr d'"
        by (cases l) (simp_all add: record_line_def)
      from af [OF this] assms(2) show ?thesis by simp
    next
      case False
      with assms(1) None have "d' = d" by (simp add: record_line_def)
      with assms(2) show ?thesis by simp
    qed
  next
    case (Some a')
    show ?thesis
    proof (cases v)
      case None
      with assms(1) Some have "d' = d" by (simp add: record_line_def)
      with assms(2) show ?thesis by simp
    next
      case v: (Some y)
      show ?thesis
      proof (cases "contains d a'")
        case True
        with assms(1) Some v have "append_fragment d a' y = Inr d'"
          by (simp add: record_line_def)
        from af [OF this] assms(2) show ?thesis by simp
      next
        case False
        with assms(1) Some v have "d' = setitem d a' (Fragments [y])"
          by (simp add: record_line_def)
        with assms(2) have "k \<in> insert a' (fst ` set d)" by (simp add: keys_setitem)
        with Some show ?thesis by auto
      qed
    qed
  qed
qed

lemma loop_body_keys:
  assumes "loop_body c d l x = Continue d' l'" and "k \<in> fst ` set d'"
  shows "k \<in> fst ` set d \<or> strip k = k"
proof -
  from loop_body_Continue_cases [OF assms(1)]
  consider "d' = d"
    | v where "parse_line c x = Inr (l', v)" "record_line d l l' v = Inr d'"
    by blast
  then show ?thesis
  proof cases
    case 1
    with assms(2) show ?thesis by simp
  next
    case 2
    from record_line_keys [OF 2(2) assms(2)] 2(1) show ?thesis
      by (auto dest: parse_line_attribute_stripped)
  qed
qed

lemma keys_join_values [simp]: "fst ` set (join_values s d) = fst ` set d"
  by (force simp: join_values_def)

lemma resume_keys:
  assumes "r \<in> set (fst (resume c d l ls))" and "k \<in> fst ` set r"
    and "\<forall>k \<in> fst ` set d. strip k = k"
  shows "strip k = k"
  using assms(1,3)
proof (induction ls arbitrary: d l)
  case Nil
  with assms(2) show ?case by (auto split: if_splits)
next
  case (Cons y ys)
  show ?case
  proof (cases "loop_body c d l y")
    case (Continue d' l')
    have "\<forall>k \<in> fst ` set d'. strip k = k"
      using loop_body_keys [OF Continue] Cons.prems(2) by blast
    with Cons.IH [of d' l'] Cons.prems(1) Continue show ?thesis by simp
  next
    case (Returned z)
    obtain ds e where ds: "resume c [] (Some []) ys = (ds, e)"
      by (cases "resume c [] (Some []) ys")
    with Cons.prems(1) Returned have "r = z \<or> r \<in> set ds" by simp
    then show ?thesis
    proof
      assume "r = z"
      with loop_body_Returned [OF Returned] have "r = join_values ''\<newline>'' d" by simp
      with assms(2) have "k \<in> fst ` set d" by (simp only: keys_join_values)
      with Cons.prems(2) show ?thesis by blast
    next
      assume "r \<in> set ds"
      with Cons.IH [of "[]" "Some []"] ds show ?thesis by simp
    qed
  next
    case (Raised e)
    with Cons.prems(1) show ?thesis by simp
  qed
qed

text \<open>
  C5 (as the code has it). Every attribute name of a yielded document is stripped: the
  name is left unchanged by \<open>strip\<close>, so it is empty or neither starts nor ends with
  whitespace. The empty name is possible.
\<close>

theorem attribute_names_stripped:
  "\<forall>d \<in> set (yielded (WhoisTextParser ls c)). \<forall>k \<in> fst ` set d.
     strip k = k \<and> (k = [] \<or> (\<not> isspace (hd k) \<and> \<not> isspace (last k)))"
proof (intro ballI)
  fix d k
  assume "d \<in> set (yielded (WhoisTextParser ls c))" and "k \<in> fst ` set d"
  then have s: "strip k = k"
    using resume_keys [of d c "[]" "Some []" ls k] by (simp add: yielded_lines)
  with strip_ends [of k] show "strip k = k \<and> (k = [] \<or> (\<not> isspace (hd k) \<and> \<not> isspace (last k)))"
    by auto
qed

theorem attribute_names_stripped_witness:
  "[(''a'', Joined ''1'')] \<in> set (yielded (WhoisTextParser [''a : 1\<newline>''] default_config))
   \<and> ''a'' \<in> fst ` set [(''a'', Joined ''1'')]
   \<and> strip ''a'' = ''a''"
proof -
  have m: "[(''a'', Joined ''1'')] \<in> set (yielded (WhoisTextParser [''a : 1\<newline>''] default_config))"
    by code_simp
  have k: "''a'' \<in> fst ` set [(''a'', Joined ''1'')]" by simp
  from attribute_names_stripped [where ls = "[''a : 1\<newline>'']" and c = default_config,
      THEN bspec, OF m, THEN bspec, OF k] m k
  show ?thesis by simp
qed

theorem attribute_names_counterexample:
  "parse_file ['':v\<newline>''] = ([[([], Joined ''v'')]], None)"
  by code_simp

section \<open>Splitting on the divider\<close>


lemma split_scan_not_Nil [simp]: "split_scan sep acc s \<noteq> []"
  by (induction sep acc s rule: split_scan.induct) auto





section \<open>Equality and hash of documents\<close>

lemma well_formed_distinct: "well_formed d \<Longrightarrow> distinct d"
  by (simp add: well_formed_def distinct_map)

lemma dict_eq_items:
  assumes "well_formed a" and "well_formed b"
  shows "dict_eq a b \<longleftrightarrow> items a = items b"
proof
  assume eq: "dict_eq a b"
  then have len: "length a = length b"
    and sub: "\<forall>(k, v) \<in> set a. map_of b k = Some v"
    by (auto simp: dict_eq_def list_all_iff)
  from sub have "set a \<subseteq> set b"
    by (auto dest: map_of_SomeD)
  moreover have "card (set a) = card (set b)"
    using len assms by (simp add: distinct_card well_formed_distinct)
  ultimately have "set a = set b"
    by (simp add: card_subset_eq)
  then show "items a = items b" by (simp add: items_def)
next
  assume "items a = items b"
  then have s: "set a = set b" by (simp add: items_def)
  from assms have "card (set a) = length a" "card (set b) = length b"
    by (simp_all add: distinct_card well_formed_distinct)
  with s have "length a = length b" by simp
  moreover have "\<forall>(k, v) \<in> set a. map_of b k = Some v"
    using s assms(2) by (auto simp: well_formed_def)
  ultimately show "dict_eq a b"
    by (simp add: dict_eq_def list_all_iff)
qed

text \<open>
  C8. Two finalized documents are equal exactly when they hold the same set of
  (attribute, value) pairs, in whatever order the attributes were inserted; the hash is
  taken of that set, so documents with the same pairs are equal and have the same hash.
\<close>

theorem document_equality_and_hash:
  assumes "well_formed a" and "well_formed b" and "finalized a" and "finalized b"
  shows "(dict_eq a b \<longleftrightarrow> items a = items b)
   \<and> document_hash h a = Inr (h (items a))
   \<and> (items a = items b \<longrightarrow> dict_eq a b \<and> document_hash h a = document_hash h b)"
  using assms by (simp add: dict_eq_items document_hash_def)

theorem document_equality_and_hash_witness:
  "well_formed [(''a'', Joined ''1''), (''b'', Joined ''2'')]
   \<and> well_formed [(''b'', Joined ''2''), (''a'', Joined ''1'')]
   \<and> finalized [(''a'', Joined ''1''), (''b'', Joined ''2'')]
   \<and> finalized [(''b'', Joined ''2''), (''a'', Joined ''1'')]
   \<and> items [(''a'', Joined ''1''), (''b'', Joined ''2'')] =
     items [(''b'', Joined ''2''), (''a'', Joined ''1'')]
   \<and> dict_eq [(''a'', Joined ''1''), (''b'', Joined ''2'')]
       [(''b'', Joined ''2''), (''a'', Joined ''1'')]
   \<and> document_hash (\<lambda>s. int (card s)) [(''a'', Joined ''1''), (''b'', Joined ''2'')] =
     document_hash (\<lambda>s. int (card s)) [(''b'', Joined ''2''), (''a'', Joined ''1'')]"
proof -
  have w: "well_formed [(''a'', Joined ''1''), (''b'', Joined ''2'')]"
    "well_formed [(''b'', Joined ''2''), (''a'', Joined ''1'')]"
    by (simp_all add: well_formed_def)
  have f: "finalized [(''a'', Joined ''1''), (''b'', Joined ''2'')]"
    "finalized [(''b'', Joined ''2''), (''a'', Joined ''1'')]"
    by (simp_all add: finalized_def)
  have i: "items [(''a'', Joined ''1''), (''b'', Joined ''2'')] =
     items [(''b'', Joined ''2''), (''a'', Joined ''1'')]"
    by (auto simp: items_def)
  from document_equality_and_hash [OF w f, of "\<lambda>s. int (card s)"] i
  have "dict_eq [(''a'', Joined ''1''), (''b'', Joined ''2'')]
       [(''b'', Joined ''2''), (''a'', Joined ''1'')]
   \<and> document_hash (\<lambda>s. int (card s)) [(''a'', Joined ''1''), (''b'', Joined ''2'')] =
     document_hash (\<lambda>s. int (card s)) [(''b'', Joined ''2''), (''a'', Joined ''1'')]"
    by blast
  with w f i show ?thesis by blast
qed

section \<open>Shape of the yielded documents\<close>

lemma well_formed_join_values [simp]: "well_formed (join_values s d) = well_formed d"
  by (simp add: well_formed_def join_values_def case_prod_unfold comp_def)

lemma resume_documents:
  assumes "r \<in> set (fst (resume c d l ls))" and "building d l"
  shows "well_formed r \<and> finalized r"
  using assms
proof (induction ls arbitrary: d l)
  case Nil
  then show ?case
    by (auto simp: building_def finalized_join_values split: if_splits)
next
  case (Cons y ys)
  show ?case
  proof (cases "loop_body c d l y")
    case (Continue d' l')
    from Cons.IH [of d' l'] Cons.prems Continue loop_body_building [OF Continue Cons.prems(2)]
    show ?thesis by simp
  next
    case (Returned z)
    obtain ds e where ds: "resume c [] (Some []) ys = (ds, e)"
      by (cases "resume c [] (Some []) ys")
    with Cons.prems(1) Returned have "r = z \<or> r \<in> set ds" by simp
    then show ?thesis
    proof
      assume "r = z"
      with loop_body_Returned [OF Returned] Cons.prems(2) show ?thesis
        by (simp add: building_def finalized_join_values)
    next
      assume "r \<in> set ds"
      with Cons.IH [of "[]" "Some []"] ds building_initial show ?thesis by simp
    qed
  next
    case (Raised e)
    with Cons.prems(1) show ?thesis by simp
  qed
qed

lemma yielded_documents:
  "d \<in> set (yielded (WhoisTextParser ls c)) \<Longrightarrow> well_formed d \<and> finalized d"
  using resume_documents [OF _ building_initial, of d c ls] by (simp add: yielded_lines)

section \<open>Lines read while \<open>last_attribute_name\<close> is \<open>None\<close>\<close>

text \<open>
  A line without attribute that is not skipped by the first guard of the loop leaves
  the document as it is, unless it is a continuation line with text, and sets
  \<open>last_attribute_name\<close> to \<open>None\<close>.
\<close>

lemma loop_body_commentary:
  assumes "is_empty_or_commentary c x" and "\<not> is_document_divider_found c x"
  shows "loop_body c d l x = Continue d (if truthy l then None else l)"
  using assms
  by (simp add: loop_body_def parse_line_empty_or_commentary record_line_def truthy_def)

text \<open>
  Once \<open>last_attribute_name\<close> is \<open>None\<close>, a continuation line is skipped, whatever the
  document holds.
\<close>

lemma loop_body_continuation_after_None:
  assumes "is_continuation c x" and "\<not> is_document_divider_found c x"
  shows "loop_body c d None x = Continue d None"
  using assms
  by (simp add: loop_body_def parse_line_continuation truthy_def)

text \<open>
  A continuation line with text right after an attribute line is appended to the
  fragments of that attribute, and \<open>last_attribute_name\<close> becomes \<open>None\<close>.
\<close>

lemma loop_body_continuation_after_attribute:
  assumes "is_continuation c x" and "\<not> is_document_divider_found c x"
    and "a \<noteq> []" and "map_of d a = Some (Fragments fs)" and "strip x \<noteq> []"
  shows "loop_body c d (Some a) x = Continue (setitem d a (Fragments (fs @ [strip x]))) None"
  using assms
  by (simp add: loop_body_def parse_line_continuation truthy_def record_line_def
      append_fragment_def)

text \<open>
  Where no continuation line follows, a commentary or empty line changes nothing: the
  next line is read the same way with \<open>last_attribute_name\<close> set to \<open>None\<close>.
\<close>

lemma loop_body_last_irrelevant:
  assumes "\<not> is_continuation c y \<or> is_document_divider_found c y"
    and "truthy l" and "d \<noteq> []"
  shows "loop_body c d None y = loop_body c d l y"
proof (cases "is_document_divider_found c y")
  case True
  with assms(3) show ?thesis by (simp add: loop_body_def)
next
  case False
  with assms(1) have nc: "\<not> is_continuation c y" by simp
  show ?thesis
  proof (cases "is_empty_or_commentary c y")
    case True
    from loop_body_commentary [OF True False] assms(2) show ?thesis
      by (simp add: truthy_def)
  next
    case ne: False
    with nc line_classes [of c y] have kv: "is_key_value c y" by simp
    show ?thesis
    proof (cases "parse_line c y")
      case (Inl e)
      with False show ?thesis by (simp add: loop_body_def)
    next
      case (Inr av)
      with parse_line_key_value [OF kv] obtain k v where "av = (Some k, Some v)"
        by (auto split: sum.splits list.splits)
      with Inr False show ?thesis
        by (simp add: loop_body_def record_line_def)
    qed
  qed
qed

lemma resume_commentary:
  assumes "is_empty_or_commentary c x" and "\<not> is_document_divider_found c x"
    and "ys = [] \<or> \<not> is_continuation c (hd ys) \<or> is_document_divider_found c (hd ys)"
    and "building d l"
  shows "resume c d l (x # ys) = resume c d l ys"
proof (cases "truthy l")
  case False
  with loop_body_commentary [OF assms(1,2), of d l] show ?thesis by simp
next
  case True
  with loop_body_commentary [OF assms(1,2), of d l]
  have r: "resume c d l (x # ys) = resume c d None ys" by simp
  from True assms(4) have ne: "d \<noteq> []" by (auto simp: building_def contains_def)
  show ?thesis
  proof (cases ys)
    case Nil
    with r show ?thesis by simp
  next
    case (Cons y zs)
    with assms(3) have "\<not> is_continuation c y \<or> is_document_divider_found c y" by simp
    from loop_body_last_irrelevant [OF this True ne] r Cons show ?thesis by simp
  qed
qed

lemma resume_commentary_anywhere:
  assumes "is_empty_or_commentary c x" and "\<not> is_document_divider_found c x"
    and "ys = [] \<or> \<not> is_continuation c (hd ys) \<or> is_document_divider_found c (hd ys)"
  shows "building d l \<Longrightarrow> resume c d l (pre @ x # ys) = resume c d l (pre @ ys)"
proof (induction pre arbitrary: d l)
  case Nil
  from resume_commentary [OF assms this] show ?case by simp
next
  case (Cons p ps)
  show ?case
  proof (cases "loop_body c d l p")
    case (Continue d' l')
    from Cons.IH [OF loop_body_building [OF Continue Cons.prems]] Continue
    show ?thesis by simp
  next
    case (Returned r)
    from Cons.IH [OF building_initial] Returned show ?thesis by simp
  next
    case (Raised e)
    then show ?thesis by simp
  qed
qed

text \<open>
  A commentary or empty line that is not the document divider can be removed from the
  file without changing the iteration, provided the line after it is not a
  continuation line.
\<close>

lemma commentary_without_continuation:
  assumes "is_empty_or_commentary c x" and "\<not> is_document_divider_found c x"
    and "ys = [] \<or> \<not> is_continuation c (hd ys) \<or> is_document_divider_found c (hd ys)"
  shows "run (WhoisTextParser (pre @ x # ys) c) = run (WhoisTextParser (pre @ ys) c)"
  using resume_commentary_anywhere [OF assms building_initial]
  by (simp only: run_lines)

section \<open>A file with two records\<close>

text \<open>
  Two records, the first with one continuation line, each closed by an empty line: two
  documents, the continuation joined to the value with a newline.
\<close>

lemma two_records:
  "parse_file [''a: 1\<newline>'', '' b2\<newline>'', ''\<newline>'', ''a: 3\<newline>'', ''\<newline>''] =
     ([[(''a'', Joined ''1\<newline>b2'')], [(''a'', Joined ''3'')]], None)"
  by code_simp


section \<open>Continuation lines after the first\<close>

text \<open>
  C3. One continuation line after an attribute line is appended to the value of that
  attribute. A second continuation line in a row is not: after the first one
  \<open>last_attribute_name\<close> is \<open>None\<close>, and the line is skipped.
\<close>

theorem second_continuation_dropped:
  "parse_file [''name: part1\<newline>'', '' part2\<newline>''] =
     ([[(''name'', Joined ''part1\<newline>part2'')]], None)
   \<and> parse_file [''name: part1\<newline>'', '' part2\<newline>'', '' part3\<newline>''] =
     ([[(''name'', Joined ''part1\<newline>part2'')]], None)"
  by code_simp

text \<open>
  C2. A commentary line between an attribute line and its continuation line changes
  the document: it sets \<open>last_attribute_name\<close> to \<open>None\<close>, and the continuation line is
  skipped.
\<close>

theorem commentary_before_continuation:
  "parse_file [''a: 1\<newline>'', '' b2\<newline>''] = ([[(''a'', Joined ''1\<newline>b2'')]], None)
   \<and> parse_file [''a: 1\<newline>'', ''# c\<newline>'', '' b2\<newline>''] = ([[(''a'', Joined ''1'')]], None)"
  by code_simp

end
